theory Spec2Isabelle
  imports Main
begin

section \<open>JavaScript values of local-cli/runAndroid/runAndroid.js\<close>

text \<open>
  A JavaScript string is modelled as a list of 8-bit code units (the characters up to
  U+00FF). A value that may be \<open>undefined\<close> or \<open>null\<close> is an option, \<open>None\<close> standing for
  the absent value. A call yields \<open>None\<close> when it never returns, \<open>Some (Inl e)\<close> when it
  throws \<open>e\<close> and \<open>Some (Inr v)\<close> when it returns \<open>v\<close>.
\<close>

datatype error = TypeError | ENOENT

type_synonym filesystem = "string \<Rightarrow> string option"

definition readFileSync :: "filesystem \<Rightarrow> string \<Rightarrow> error + string" where
  "readFileSync fs filePath = (case fs filePath of None \<Rightarrow> Inl ENOENT | Some content \<Rightarrow> Inr content)"

text \<open>\<open>content[i]\<close>: \<open>undefined\<close> outside the string, also at a negative index.\<close>

definition char_at :: "string \<Rightarrow> int \<Rightarrow> char option" where
  "char_at content i = (if 0 \<le> i \<and> i < int (length content) then Some (content ! nat i) else None)"

text \<open>\<open>ToString\<close> of a string that may be \<open>undefined\<close>.\<close>

definition to_string :: "string option \<Rightarrow> string" where
  "to_string v = (case v of None \<Rightarrow> ''undefined'' | Some s \<Rightarrow> s)"

text \<open>\<open>Array.prototype.join\<close>: an \<open>undefined\<close> or \<open>null\<close> element is joined as the empty string.\<close>

fun join :: "string \<Rightarrow> string option list \<Rightarrow> string" where
  "join sep [] = []"
| "join sep [x] = (case x of None \<Rightarrow> [] | Some s \<Rightarrow> s)"
| "join sep (x # y # ys) = (case x of None \<Rightarrow> [] | Some s \<Rightarrow> s) @ sep @ join sep (y # ys)"

text \<open>Truthiness of a string that may be \<open>null\<close>: the empty string is falsy.\<close>

definition truthy :: "string option \<Rightarrow> bool" where
  "truthy v = (case v of None \<Rightarrow> False | Some s \<Rightarrow> s \<noteq> [])"

subsection \<open>Character classes of the regular expressions\<close>

text \<open>\<open>\w\<close>: the letters A-Z and a-z, the digits and the underscore.\<close>

definition is_word :: "char \<Rightarrow> bool" where
  "is_word c = (let n = (of_char c :: nat) in
     (48 \<le> n \<and> n \<le> 57) \<or> (65 \<le> n \<and> n \<le> 90) \<or> n = 95 \<or> (97 \<le> n \<and> n \<le> 122))"

text \<open>\<open>\s\<close> on code units below 256: tab, line feed, vertical tab, form feed, carriage
  return, space and the no-break space U+00A0.\<close>

definition is_space :: "char \<Rightarrow> bool" where
  "is_space c = (let n = (of_char c :: nat) in (9 \<le> n \<and> n \<le> 13) \<or> n = 32 \<or> n = 160)"

text \<open>
  \<open>Canonicalize\<close> of a regular expression with the \<open>i\<close> flag (and no \<open>u\<close> flag): the upper
  case of the code unit, when that is a single code unit; a-z and the Latin-1 letters
  U+00E0..U+00FE (U+00F7 apart) move down by 32. The upper case of U+00B5 and U+00FF lies
  beyond U+00FF and that of U+00DF is two code units, so among 8-bit code units they
  match themselves only.
\<close>

definition canonicalize :: "char \<Rightarrow> char" where
  "canonicalize c = (let n = (of_char c :: nat) in
     if (97 \<le> n \<and> n \<le> 122) \<or> (224 \<le> n \<and> n \<le> 254 \<and> n \<noteq> 247) then char_of (n - 32) else c)"

text \<open>\<open>String.prototype.toLowerCase\<close> on code units below 256.\<close>

definition toLowerCase :: "string \<Rightarrow> string" where
  "toLowerCase s = map (\<lambda>c. let n = (of_char c :: nat) in
     if (65 \<le> n \<and> n \<le> 90) \<or> (192 \<le> n \<and> n \<le> 222 \<and> n \<noteq> 215) then char_of (n + 32) else c) s"

text \<open>A literal pattern matches, ignoring case, at the start of the text.\<close>

fun ci_prefix :: "string \<Rightarrow> string \<Rightarrow> bool" where
  "ci_prefix [] text = True"
| "ci_prefix (p # ps) [] = False"
| "ci_prefix (p # ps) (c # cs) = (canonicalize p = canonicalize c \<and> ci_prefix ps cs)"

subsection \<open>Arrays in a store\<close>

text \<open>
  An array is an object: \<open>push\<close> changes it for everyone who holds a reference to it.
  The store maps references to array contents; \<open>next_ref\<close> is the first unused reference.
\<close>

type_synonym ref = nat

record store =
  arrays :: "ref \<Rightarrow> string list"
  next_ref :: ref

definition empty_store :: store where
  "empty_store = \<lparr>arrays = (\<lambda>_. []), next_ref = 0\<rparr>"

text \<open>An array literal: a new array.\<close>

definition alloc :: "store \<Rightarrow> string list \<Rightarrow> ref \<times> store" where
  "alloc s xs = (next_ref s, s\<lparr>arrays := (arrays s)(next_ref s := xs), next_ref := Suc (next_ref s)\<rparr>)"

definition push :: "store \<Rightarrow> ref \<Rightarrow> string \<Rightarrow> store" where
  "push s r x = s\<lparr>arrays := (arrays s)(r := arrays s r @ [x])\<rparr>"

text \<open>\<open>Array.prototype.indexOf\<close>: the first index of an equal element, or -1.\<close>

fun indexOf_from :: "string list \<Rightarrow> string \<Rightarrow> int \<Rightarrow> int" where
  "indexOf_from [] x i = -1"
| "indexOf_from (y # ys) x i = (if y = x then i else indexOf_from ys x (i + 1))"

definition indexOf :: "string list \<Rightarrow> string \<Rightarrow> int" where
  "indexOf xs x = indexOf_from xs x 0"

section \<open>findPreviousTerm\<close>

text \<open>The first loop: \<open>while (content[endPos] === ' ') --endPos\<close>.\<close>

function findPreviousTerm_skip :: "string \<Rightarrow> int \<Rightarrow> int" where
  "findPreviousTerm_skip content endPos =
     (if char_at content endPos = Some CHR '' '' then findPreviousTerm_skip content (endPos - 1)
      else endPos)"
  by pat_completeness auto
termination
  by (relation "measure (\<lambda>(content, endPos). nat (endPos + 1))")
     (auto simp: char_at_def split: if_splits)

text \<open>
  \<open>regex.exec(content[endPos])\<close> for the pattern \<open>\w\<close>: the argument is converted to a
  string, so \<open>undefined\<close> is searched as the text "undefined", where the pattern matches.
\<close>

definition regex_w_exec :: "char option \<Rightarrow> bool" where
  "regex_w_exec v = (case v of None \<Rightarrow> True | Some c \<Rightarrow> is_word c)"

text \<open>The second loop, which pushes \<open>content[endPos]\<close> while it matches. It does not end
  once \<open>endPos\<close> has left the string at its start.\<close>

partial_function (option) findPreviousTerm_word ::
  "string \<Rightarrow> int \<Rightarrow> char option list \<Rightarrow> char option list option" where
  "findPreviousTerm_word content endPos word =
     (if regex_w_exec (char_at content endPos)
      then findPreviousTerm_word content (endPos - 1) (word @ [char_at content endPos])
      else Some word)"

declare findPreviousTerm_word.simps [code]

definition findPreviousTerm :: "string \<Rightarrow> int \<Rightarrow> string option" where
  "findPreviousTerm content endPos =
     map_option (\<lambda>word. join [] (map (map_option (\<lambda>c. [c])) (rev word)))
       (findPreviousTerm_word content (findPreviousTerm_skip content endPos) [])"

section \<open>findVariants\<close>

text \<open>
  \<open>new RegExp(`${variantType}\\s+{`, 'ig').exec(content)\<close>, for a \<open>variantType\<close> that is
  a literal pattern, as every name of word characters is (the caller passes
  \<open>'buildTypes'\<close>): the name, ignoring case, then one or more white-space characters,
  then an opening brace. \<open>header_at\<close> is the length of the match at the start of the text.
\<close>

definition header_at :: "string \<Rightarrow> string \<Rightarrow> nat option" where
  "header_at variantType text =
     (if ci_prefix variantType text then
        (let rest = drop (length variantType) text;
             ws = takeWhile is_space rest
         in if ws \<noteq> [] \<and> char_at rest (int (length ws)) = Some CHR ''{''
            then Some (length variantType + length ws + 1) else None)
      else None)"

text \<open>The leftmost match; the result is \<open>regex.lastIndex\<close>, the index after the match.\<close>

fun header_search :: "string \<Rightarrow> string \<Rightarrow> nat \<Rightarrow> nat option" where
  "header_search variantType [] i = None"
| "header_search variantType (c # cs) i =
     (case header_at variantType (c # cs) of
        Some n \<Rightarrow> Some (i + n)
      | None \<Rightarrow> header_search variantType cs (Suc i))"

text \<open>
  The loop \<open>while (counter > 0)\<close>, on the state \<open>counter\<close>, \<open>pos\<close> and the store that holds
  the array \<open>variants\<close>. The result is the position and the store at the exit.
\<close>

partial_function (option) findVariants_loop ::
  "string \<Rightarrow> ref \<Rightarrow> int \<Rightarrow> int \<Rightarrow> store \<Rightarrow> (int \<times> store) option" where
  "findVariants_loop content variants counter pos s =
     (if counter > 0 then
        (if char_at content pos = Some CHR ''{'' then
           (if counter + 1 = 2 then
              (case findPreviousTerm content (pos - 1) of
                 None \<Rightarrow> None
               | Some previousTerm \<Rightarrow>
                   findVariants_loop content variants (counter + 1) (pos + 1)
                     (if indexOf (arrays s variants) previousTerm = -1
                      then push s variants previousTerm else s))
            else findVariants_loop content variants (counter + 1) (pos + 1) s)
         else if char_at content pos = Some CHR ''}'' then
           findVariants_loop content variants (counter - 1) (pos + 1) s
         else findVariants_loop content variants counter (pos + 1) s)
      else Some (pos, s))"

declare findVariants_loop.simps [code]

text \<open>\<open>defaultVariants\<close> is a reference to the caller's array, or \<open>undefined\<close>; the result is
  the reference \<open>variants\<close> and the store after the call.\<close>

definition findVariants ::
  "filesystem \<Rightarrow> store \<Rightarrow> string \<Rightarrow> string \<Rightarrow> ref option \<Rightarrow> (error + ref \<times> store) option" where
  "findVariants fs s filePath variantType defaultVariants =
     (case readFileSync fs filePath of
        Inl e \<Rightarrow> Some (Inl e)
      | Inr content \<Rightarrow>
          (let (variants, s1) = (case defaultVariants of Some r \<Rightarrow> (r, s) | None \<Rightarrow> alloc s [])
           in case header_search variantType content 0 of
                None \<Rightarrow> Some (Inr (variants, s1))
              | Some variantStartPos \<Rightarrow>
                  map_option (\<lambda>(pos, s2). Inr (variants, s2))
                    (findVariants_loop content variants 1 (int variantStartPos + 1) s1)))"

section \<open>splitVariant\<close>

text \<open>
  \<open>new RegExp(buildTypes.join('|'), 'gi').exec(variant)\<close>, for names that are literal
  patterns: the index of the leftmost position where one of the names matches, ignoring
  case. An empty array joins to the empty pattern, which is one empty alternative.
\<close>

definition alternative_at :: "string list \<Rightarrow> string \<Rightarrow> bool" where
  "alternative_at names text = list_ex (\<lambda>name. ci_prefix name text) names"

fun alternation_search :: "string list \<Rightarrow> string \<Rightarrow> nat \<Rightarrow> nat option" where
  "alternation_search names [] i = (if alternative_at names [] then Some i else None)"
| "alternation_search names (c # cs) i =
     (if alternative_at names (c # cs) then Some i else alternation_search names cs (Suc i))"

definition alternation_exec :: "string list \<Rightarrow> string option \<Rightarrow> nat option" where
  "alternation_exec buildTypes variant =
     alternation_search (if buildTypes = [] then [''''] else buildTypes) (to_string variant) 0"

text \<open>
  The result is the pair \<open>[base type, flavor]\<close>: the base type may be \<open>undefined\<close> (as the
  variant may), the flavor may be \<open>null\<close>. The array literal of the defaults is a new
  array, which nobody else holds.
\<close>

definition splitVariant ::
  "filesystem \<Rightarrow> string \<Rightarrow> string option \<Rightarrow> (error + string option \<times> string option) option" where
  "splitVariant fs gradleFilePath variant =
     (let (defaults, s) = alloc empty_store [''debug'', ''release'']
      in case findVariants fs s gradleFilePath ''buildTypes'' (Some defaults) of
           None \<Rightarrow> None
         | Some (Inl e) \<Rightarrow> Some (Inl e)
         | Some (Inr (buildTypes, s')) \<Rightarrow>
             (case alternation_exec (arrays s' buildTypes) variant of
                Some index \<Rightarrow>
                  (case variant of
                     None \<Rightarrow> Some (Inl TypeError)
                   | Some v \<Rightarrow> Some (Inr (Some (drop index v), Some (take index v))))
              | None \<Rightarrow> Some (Inr (variant, None))))"

section \<open>isSeparateBuildEnabled\<close>

text \<open>
  \<open>content.match(/enableSeparateBuildPerCPUArchitecture\s+=\s+([\w]+)/)\<close>: the name
  (case matters), white space, an equals sign, white space and a run of word characters,
  which is the captured group. \<open>flag_at\<close> is the group of a match at the start of the
  text.
\<close>

definition flag_at :: "string \<Rightarrow> string option" where
  "flag_at text =
     (let name = ''enableSeparateBuildPerCPUArchitecture'' in
      if take (length name) text = name then
        (let rest = drop (length name) text;
             ws1 = takeWhile is_space rest;
             rest1 = dropWhile is_space rest
         in if ws1 \<noteq> [] \<and> char_at rest1 0 = Some CHR ''='' then
              (let rest2 = drop 1 rest1;
                   ws2 = takeWhile is_space rest2;
                   w = takeWhile is_word (dropWhile is_space rest2)
               in if ws2 \<noteq> [] \<and> w \<noteq> [] then Some w else None)
            else None)
      else None)"

fun flag_search :: "string \<Rightarrow> string option" where
  "flag_search [] = None"
| "flag_search (c # cs) = (case flag_at (c # cs) of Some w \<Rightarrow> Some w | None \<Rightarrow> flag_search cs)"

text \<open>Reading \<open>[1]\<close> of the \<open>null\<close> that \<open>match\<close> returns when nothing matches throws a
  TypeError.\<close>

definition isSeparateBuildEnabled :: "filesystem \<Rightarrow> string \<Rightarrow> error + bool" where
  "isSeparateBuildEnabled fs gradleFilePath =
     (case readFileSync fs gradleFilePath of
        Inl e \<Rightarrow> Inl e
      | Inr content \<Rightarrow>
          (case flag_search content of
             None \<Rightarrow> Inl TypeError
           | Some separateBuild \<Rightarrow> Inr (toLowerCase separateBuild = ''true'')))"

section \<open>getManifestFile\<close>

definition getManifestFile :: "filesystem \<Rightarrow> string option \<Rightarrow> (error + string) option" where
  "getManifestFile fs variant =
     (let gradleFilePath = ''app/build.gradle''
      in case splitVariant fs gradleFilePath variant of
           None \<Rightarrow> None
         | Some (Inl e) \<Rightarrow> Some (Inl e)
         | Some (Inr (buildType, flavor)) \<Rightarrow>
             (let paths = [Some ''app/build/intermediates/manifests/full''];
                  paths1 = (if truthy flavor then paths @ [flavor] else paths)
              in case isSeparateBuildEnabled fs gradleFilePath of
                   Inl e \<Rightarrow> Some (Inl e)
                 | Inr enabled \<Rightarrow>
                     (let paths2 = (if enabled then paths1 @ [Some ''x86''] else paths1);
                          paths3 = paths2 @ [buildType];
                          paths4 = paths3 @ [Some ''AndroidManifest.xml'']
                      in Some (Inr (join ''/'' paths4)))))"

section \<open>Descriptions used in the proofs\<close>

text \<open>The characters at \<open>endPos\<close>, \<open>endPos - 1\<close>, ... down to 0: what a backward scan reads.\<close>

definition backward :: "string \<Rightarrow> int \<Rightarrow> string" where
  "backward content endPos = rev (take (nat (endPos + 1)) content)"

text \<open>The term before \<open>endPos\<close> as the code computes it: the space characters (U+0020) are
  skipped, then the longest run of word characters is taken.\<close>

definition previous_term :: "string \<Rightarrow> int \<Rightarrow> string" where
  "previous_term content endPos =
     rev (takeWhile is_word (dropWhile (\<lambda>c. c = CHR '' '') (backward content endPos)))"

text \<open>The term before \<open>endPos\<close> in the words of the specification: trailing white space is
  skipped, then the longest run of word characters is taken.\<close>

definition spec_previous_term :: "string \<Rightarrow> int \<Rightarrow> string" where
  "spec_previous_term content endPos =
     rev (takeWhile is_word (dropWhile is_space (backward content endPos)))"

text \<open>\<open>if (variants.indexOf(previousTerm) === -1) variants.push(previousTerm)\<close> on the
  contents of the array.\<close>

definition add_variant :: "string list \<Rightarrow> string \<Rightarrow> string list" where
  "add_variant vs t = (if t \<in> set vs then vs else vs @ [t])"

text \<open>
  The loop of \<open>findVariants\<close> on the contents of the array alone, with the end of the
  content made explicit: past the end nothing changes any more, so the loop does not
  return (\<open>None\<close>). Lemma \<open>findVariants_loop_scan\<close> shows that this is what the loop does.
\<close>

function scan :: "string \<Rightarrow> int \<Rightarrow> nat \<Rightarrow> string list \<Rightarrow> (nat \<times> string list) option" where
  "scan content counter pos vs =
     (if counter \<le> 0 then Some (pos, vs)
      else if length content \<le> pos then None
      else if content ! pos = CHR ''{'' then
        scan content (counter + 1) (Suc pos)
          (if counter = 1 then add_variant vs (previous_term content (int pos - 1)) else vs)
      else if content ! pos = CHR ''}'' then scan content (counter - 1) (Suc pos) vs
      else scan content counter (Suc pos) vs)"
  by pat_completeness auto
termination
  by (relation "measure (\<lambda>(content, counter, pos, vs). length content - pos)") auto

text \<open>
  The positions of the opening braces that the loop of \<open>findVariants\<close> meets with its
  counter at 1, on the rest of the content from position \<open>pos\<close>, until the counter is 0;
  and what \<open>findPreviousTerm\<close> returns before each of them: the identifiers that a run
  of \<open>findVariants\<close> discovers, in the order of their discovery.
\<close>

fun child_braces :: "string \<Rightarrow> nat \<Rightarrow> nat \<Rightarrow> nat list" where
  "child_braces [] counter pos = []"
| "child_braces (c # cs) counter pos =
     (if counter = 0 then []
      else if c = CHR ''{'' then
        (if counter = 1 then pos # child_braces cs (Suc counter) (Suc pos)
         else child_braces cs (Suc counter) (Suc pos))
      else if c = CHR ''}'' then child_braces cs (counter - 1) (Suc pos)
      else child_braces cs counter (Suc pos))"

definition child_terms :: "string \<Rightarrow> nat \<Rightarrow> string option list" where
  "child_terms content start =
     map (\<lambda>pos. findPreviousTerm content (int pos - 1)) (child_braces (drop start content) 1 start)"

definition set_array :: "store \<Rightarrow> ref \<Rightarrow> string list \<Rightarrow> store" where
  "set_array s r vs = s\<lparr>arrays := (arrays s)(r := vs)\<rparr>"

text \<open>What a caller sees of a call of \<open>findVariants\<close>: the contents of the returned
  array, and the contents after the call of an array \<open>r\<close> that the caller holds.\<close>

definition returned_list :: "(error + ref \<times> store) option \<Rightarrow> (error + string list) option" where
  "returned_list res = map_option (map_sum id (\<lambda>(variants, s'). arrays s' variants)) res"

definition array_after :: "ref \<Rightarrow> (error + ref \<times> store) option \<Rightarrow> (error + string list) option" where
  "array_after r res = map_option (map_sum id (\<lambda>(variants, s'). arrays s' r)) res"

text \<open>The contents of the defaults that a call is given: \<open>undefined\<close> stands for the
  empty list.\<close>

definition defaults_list :: "store \<Rightarrow> ref option \<Rightarrow> string list" where
  "defaults_list s defaultVariants = (case defaultVariants of None \<Rightarrow> [] | Some r \<Rightarrow> arrays s r)"

text \<open>
  The end of a block in the words of the specification: from the position after the
  opening brace, with a counter that starts at 1, goes up at each opening brace and
  down at each closing brace, the index of the closing brace that takes it to 0.
\<close>

fun spec_block_end_from :: "string \<Rightarrow> nat \<Rightarrow> nat \<Rightarrow> nat option" where
  "spec_block_end_from [] depth p = None"
| "spec_block_end_from (c # cs) depth p =
     (if c = CHR ''{'' then spec_block_end_from cs (Suc depth) (Suc p)
      else if c = CHR ''}'' then
        (if depth \<le> 1 then Some p else spec_block_end_from cs (depth - 1) (Suc p))
      else spec_block_end_from cs depth (Suc p))"

definition spec_block_end :: "string \<Rightarrow> nat \<Rightarrow> nat option" where
  "spec_block_end content start = spec_block_end_from (drop start content) 1 start"

text \<open>A file system that holds one file.\<close>

definition single_file :: "string \<Rightarrow> string \<Rightarrow> filesystem" where
  "single_file path content = (\<lambda>p. if p = path then Some content else None)"

section \<open>Example build files\<close>

definition gradle_no_block :: string where
  "gradle_no_block = ''android {\<newline>}\<newline>''"

definition gradle_flag_true :: string where
  "gradle_flag_true = ''def enableSeparateBuildPerCPUArchitecture = true\<newline>''"

definition gradle_flag_false :: string where
  "gradle_flag_false = ''def enableSeparateBuildPerCPUArchitecture = false\<newline>''"

definition gradle_staging :: string where
  "gradle_staging =
     ''android {\<newline>  buildTypes {\<newline>    staging {\<newline>    }\<newline>  }\<newline>}\<newline>''"

definition gradle_unclosed :: string where
  "gradle_unclosed = ''buildTypes {\<newline>  release {\<newline>  }\<newline>''"

definition gradle_empty_block :: string where
  "gradle_empty_block =
     ''android {\<newline>  buildTypes {}\<newline>  productFlavors {\<newline>  }\<newline>}\<newline>''"

definition gradle_brace_on_next_line :: string where
  "gradle_brace_on_next_line =
     ''buildTypes {\<newline>  staging\<newline>  {\<newline>  }\<newline>}\<newline>''"

section \<open>The loops of findPreviousTerm\<close>

declare findPreviousTerm_skip.simps [simp del]
declare scan.simps [simp del]

lemma backward_neg: "endPos < 0 \<Longrightarrow> backward content endPos = []"
  by (simp add: backward_def)

lemma backward_step:
  assumes "0 \<le> endPos" and "endPos < int (length content)"
  shows "backward content endPos = content ! nat endPos # backward content (endPos - 1)"
proof -
  have "nat (endPos + 1) = Suc (nat endPos)" and "nat (endPos - 1 + 1) = nat endPos"
    using assms by auto
  moreover have "nat endPos < length content"
    using assms by auto
  ultimately show ?thesis
    by (simp add: backward_def take_Suc_conv_app_nth)
qed

lemma char_at_inside:
  "0 \<le> i \<Longrightarrow> i < int (length content) \<Longrightarrow> char_at content i = Some (content ! nat i)"
  by (simp add: char_at_def)

lemma findPreviousTerm_skip_backward:
  "- 1 \<le> endPos \<Longrightarrow> endPos < int (length content) \<Longrightarrow>
   backward content (findPreviousTerm_skip content endPos)
     = dropWhile (\<lambda>c. c = CHR '' '') (backward content endPos)
   \<and> - 1 \<le> findPreviousTerm_skip content endPos
   \<and> findPreviousTerm_skip content endPos \<le> endPos"
proof (induction content endPos rule: findPreviousTerm_skip.induct)
  case (1 content endPos)
  show ?case
  proof (cases "char_at content endPos = Some CHR '' ''")
    case True
    then have inside: "0 \<le> endPos" "endPos < int (length content)" and sp: "content ! nat endPos = CHR '' ''"
      by (auto simp: char_at_def split: if_splits)
    from 1(1) [OF True] inside
    have IH: "backward content (findPreviousTerm_skip content (endPos - 1))
        = dropWhile (\<lambda>c. c = CHR '' '') (backward content (endPos - 1))"
      "- 1 \<le> findPreviousTerm_skip content (endPos - 1)"
      "findPreviousTerm_skip content (endPos - 1) \<le> endPos - 1"
      by auto
    have "findPreviousTerm_skip content endPos = findPreviousTerm_skip content (endPos - 1)"
      using True by (subst findPreviousTerm_skip.simps) simp
    with IH sp inside show ?thesis
      by (simp add: backward_step)
  next
    case False
    then have eq: "findPreviousTerm_skip content endPos = endPos"
      by (subst findPreviousTerm_skip.simps) simp
    show ?thesis
    proof (cases "endPos < 0")
      case True
      with eq 1(2) show ?thesis by (simp add: backward_neg)
    next
      case neg: False
      with False 1(3) have "content ! nat endPos \<noteq> CHR '' ''"
        by (simp add: char_at_def)
      with eq neg 1(2,3) show ?thesis
        by (simp add: backward_step)
    qed
  qed
qed

lemma findPreviousTerm_word_backward:
  "- 1 \<le> endPos \<Longrightarrow> endPos < int (length content) \<Longrightarrow>
   dropWhile is_word (backward content endPos) \<noteq> [] \<Longrightarrow>
   findPreviousTerm_word content endPos word
     = Some (word @ map Some (takeWhile is_word (backward content endPos)))"
proof (induction "nat (endPos + 1)" arbitrary: endPos word)
  case 0
  then have "endPos < 0" by simp
  with 0 show ?case by (simp add: backward_neg)
next
  case (Suc n)
  then have inside: "0 \<le> endPos" "endPos < int (length content)" by auto
  let ?c = "content ! nat endPos"
  have bw: "backward content endPos = ?c # backward content (endPos - 1)"
    using inside by (rule backward_step)
  have ch: "char_at content endPos = Some ?c"
    using inside by (rule char_at_inside)
  show ?case
  proof (cases "is_word ?c")
    case True
    have "findPreviousTerm_word content (endPos - 1) (word @ [Some ?c])
        = Some ((word @ [Some ?c]) @ map Some (takeWhile is_word (backward content (endPos - 1))))"
      using Suc.hyps(2) Suc.prems True bw inside
      by (intro Suc.hyps(1)) auto
    then show ?thesis
      using True bw ch by (subst findPreviousTerm_word.simps) (simp add: regex_w_exec_def)
  next
    case False
    then show ?thesis
      using bw ch by (subst findPreviousTerm_word.simps) (simp add: regex_w_exec_def)
  qed
qed

lemma join_empty_sep:
  "join [] ys = concat (map (\<lambda>x. case x of None \<Rightarrow> [] | Some s \<Rightarrow> s) ys)"
  by (induction "[] :: string" ys rule: join.induct) auto

lemma join_chars: "join [] (map (map_option (\<lambda>c. [c]) \<circ> Some) xs) = xs"
  by (induction xs) (auto simp: join_empty_sep)

lemma findPreviousTerm_previous_term:
  assumes "- 1 \<le> endPos" and "endPos < int (length content)"
    and "dropWhile is_word (dropWhile (\<lambda>c. c = CHR '' '') (backward content endPos)) \<noteq> []"
  shows "findPreviousTerm content endPos = Some (previous_term content endPos)"
proof -
  let ?e = "findPreviousTerm_skip content endPos"
  from findPreviousTerm_skip_backward [OF assms(1,2)]
  have sk: "backward content ?e = dropWhile (\<lambda>c. c = CHR '' '') (backward content endPos)"
    and rng: "- 1 \<le> ?e" "?e < int (length content)"
    using assms(2) by auto
  from assms(3) sk have "dropWhile is_word (backward content ?e) \<noteq> []" by simp
  from findPreviousTerm_word_backward [OF rng this, of "[]"] sk
  show ?thesis
    by (simp add: findPreviousTerm_def previous_term_def rev_map join_chars)
qed

lemma in_set_dropWhile: "x \<in> set xs \<Longrightarrow> \<not> P x \<Longrightarrow> x \<in> set (dropWhile P xs)"
  by (induction xs) auto

lemma backward_stops:
  assumes "j \<le> nat endPos" and "0 \<le> endPos" and "endPos < int (length content)"
    and "\<not> is_word (content ! j)" and "content ! j \<noteq> CHR '' ''"
  shows "dropWhile is_word (dropWhile (\<lambda>c. c = CHR '' '') (backward content endPos)) \<noteq> []"
proof -
  have "j < length (take (nat (endPos + 1)) content)"
    using assms(1-3) by auto
  then have "take (nat (endPos + 1)) content ! j \<in> set (take (nat (endPos + 1)) content)"
    by (rule nth_mem)
  moreover have "take (nat (endPos + 1)) content ! j = content ! j"
    using assms(1-3) by auto
  ultimately have "content ! j \<in> set (backward content endPos)"
    by (simp add: backward_def)
  then have "content ! j \<in> set (dropWhile is_word (dropWhile (\<lambda>c. c = CHR '' '') (backward content endPos)))"
    using assms(4,5) by (intro in_set_dropWhile) auto
  then show ?thesis by (auto simp del: dropWhile_eq_Nil_conv)
qed

section \<open>The loop of findVariants\<close>

text \<open>Past the end of the content the loop reads \<open>undefined\<close> for ever.\<close>

lemma findVariants_loop_Some_inside:
  assumes "findVariants_loop content variants counter pos s = Some y"
  shows "0 < counter \<longrightarrow> pos < int (length content)"
proof (rule findVariants_loop.raw_induct
         [where P = "\<lambda>content variants counter pos s y. 0 < counter \<longrightarrow> pos < int (length content)",
          OF _ assms])
  fix f content variants counter pos s and y :: "int \<times> store"
  assume IH: "\<And>content variants counter pos s y. f content variants counter pos s = Some y \<Longrightarrow>
           0 < counter \<longrightarrow> pos < int (length content)"
    and step: "(if 0 < counter
      then if char_at content pos = Some CHR ''{''
           then if counter + 1 = 2
                then case findPreviousTerm content (pos - 1) of None \<Rightarrow> None
                     | Some previousTerm \<Rightarrow>
                         f content variants (counter + 1) (pos + 1)
                          (if indexOf (arrays s variants) previousTerm = - 1
                           then push s variants previousTerm else s)
                else f content variants (counter + 1) (pos + 1) s
           else if char_at content pos = Some CHR ''}''
                then f content variants (counter - 1) (pos + 1) s
                else f content variants counter (pos + 1) s
      else Some (pos, s)) = Some y"
  show "0 < counter \<longrightarrow> pos < int (length content)"
  proof (intro impI, rule ccontr)
    assume c: "0 < counter" and "\<not> pos < int (length content)"
    then have out: "char_at content pos = None" "\<not> pos + 1 < int (length content)"
      by (auto simp: char_at_def)
    with step c have "f content variants counter (pos + 1) s = Some y"
      by simp
    from IH [OF this] c out show False by simp
  qed
qed

lemma findVariants_loop_past_end:
  "0 < counter \<Longrightarrow> int (length content) \<le> pos \<Longrightarrow>
   findVariants_loop content variants counter pos s = None"
  using findVariants_loop_Some_inside [of content variants counter pos s]
  by (cases "findVariants_loop content variants counter pos s") auto

lemma indexOf_from_bounds:
  "0 \<le> i \<Longrightarrow> (x \<in> set xs \<longrightarrow> i \<le> indexOf_from xs x i) \<and> (x \<notin> set xs \<longrightarrow> indexOf_from xs x i = - 1)"
  by (induction xs x i rule: indexOf_from.induct) auto

lemma indexOf_absent: "indexOf xs x = - 1 \<longleftrightarrow> x \<notin> set xs"
  using indexOf_from_bounds [of 0 x xs] by (auto simp: indexOf_def)

lemma set_array_same [simp]: "set_array s r (arrays s r) = s"
  by (simp add: set_array_def)

lemma arrays_set_array [simp]: "arrays (set_array s r vs) q = (if q = r then vs else arrays s q)"
  by (simp add: set_array_def)

lemma set_array_twice [simp]: "set_array (set_array s r vs) r ws = set_array s r ws"
  by (simp add: set_array_def)

lemma push_add_variant:
  "(if indexOf (arrays s r) t = - 1 then push s r t else s) = set_array s r (add_variant (arrays s r) t)"
  by (simp add: indexOf_absent add_variant_def push_def set_array_def)

lemma findVariants_loop_scan:
  assumes "j < pos" and "j < length content" and "content ! j = CHR ''{''"
  shows "findVariants_loop content r counter (int pos) s
     = map_option (\<lambda>(p, vs). (int p, set_array s r vs)) (scan content counter pos (arrays s r))"
  using assms(1)
proof (induction "length content - pos" arbitrary: pos counter s rule: less_induct)
  case less
  show ?case
  proof (cases "counter \<le> 0")
    case True
    then show ?thesis
      by (subst findVariants_loop.simps, subst scan.simps) simp
  next
    case pos_counter: False
    show ?thesis
    proof (cases "length content \<le> pos")
      case True
      with pos_counter show ?thesis
        by (subst scan.simps) (simp add: findVariants_loop_past_end)
    next
      case False
      then have inside: "pos < length content" by simp
      then have ch: "char_at content (int pos) = Some (content ! pos)"
        by (simp add: char_at_def)
      have IH: "findVariants_loop content r c (int pos + 1) t
          = map_option (\<lambda>(p, vs). (int p, set_array t r vs)) (scan content c (Suc pos) (arrays t r))"
        for c t
        using less.hyps [of "Suc pos" c t] less.prems inside
        by (simp add: add.commute)
      show ?thesis
      proof (cases "content ! pos = CHR ''{''")
        case True
        show ?thesis
        proof (cases "counter = 1")
          case one: True
          have "\<not> is_word (content ! j)" "content ! j \<noteq> CHR '' ''"
            using assms(3) by (simp_all add: is_word_def)
          then have "dropWhile is_word (dropWhile (\<lambda>c. c = CHR '' '') (backward content (int pos - 1))) \<noteq> []"
            using less.prems inside by (intro backward_stops [of j]) auto
          then have prev: "findPreviousTerm content (int pos - 1) = Some (previous_term content (int pos - 1))"
            using less.prems inside by (intro findPreviousTerm_previous_term) auto
          show ?thesis
            using one True ch inside prev
            by (subst findVariants_loop.simps, subst scan.simps)
               (simp add: push_add_variant IH)
        next
          case False
          then show ?thesis
            using pos_counter True ch inside
            by (subst findVariants_loop.simps, subst scan.simps) (simp add: IH)
        qed
      next
        case False
        then show ?thesis
          using pos_counter ch inside
          by (subst findVariants_loop.simps, subst scan.simps) (simp add: IH)
      qed
    qed
  qed
qed

section \<open>The header and the whole of findVariants\<close>

lemma header_at_brace:
  assumes "header_at variantType text = Some n"
  shows "0 < n \<and> n \<le> length text \<and> text ! (n - 1) = CHR ''{''"
proof -
  let ?rest = "drop (length variantType) text"
  let ?ws = "takeWhile is_space ?rest"
  from assms have n: "n = length variantType + length ?ws + 1"
    and br: "char_at ?rest (int (length ?ws)) = Some CHR ''{''"
    by (auto simp: header_at_def Let_def split: if_splits)
  from br have inside: "length ?ws < length ?rest" and at: "?rest ! length ?ws = CHR ''{''"
    by (auto simp: char_at_def split: if_splits)
  from inside have "length variantType + length ?ws < length text"
    by simp
  with n at show ?thesis
    by (simp add: add.commute)
qed

lemma header_search_brace:
  "header_search variantType str i = Some n \<Longrightarrow>
   i < n \<and> n \<le> i + length str \<and> str ! (n - 1 - i) = CHR ''{''"
proof (induction str arbitrary: i)
  case Nil
  then show ?case by simp
next
  case (Cons c cs)
  show ?case
  proof (cases "header_at variantType (c # cs)")
    case None
    with Cons.prems have "header_search variantType cs (Suc i) = Some n" by simp
    from Cons.IH [OF this] show ?thesis
      by (auto simp: nth_Cons' Suc_diff_Suc)
  next
    case (Some m)
    with Cons.prems have n: "n = i + m" by simp
    from header_at_brace [OF Some] n show ?thesis
      by (auto simp: add.commute)
  qed
qed

text \<open>
  At every opening brace that the loop of \<open>findVariants\<close> can reach (every position after
  the header), \<open>findPreviousTerm\<close> returns: the brace of the header stops its second loop.
  The term is found by skipping backward over space characters (U+0020) only, and then
  taking the longest backward run of word characters.
\<close>

lemma findPreviousTerm_after_header:
  assumes "header_search variantType content 0 = Some variantStartPos"
    and "int variantStartPos < pos"
    and "char_at content pos = Some CHR ''{''"
  shows "findPreviousTerm content (pos - 1) = Some (previous_term content (pos - 1))"
proof -
  from header_search_brace [OF assms(1)]
  have j: "0 < variantStartPos" "content ! (variantStartPos - 1) = CHR ''{''"
    by auto
  from assms(3) have inside: "pos < int (length content)"
    by (simp add: char_at_def split: if_splits)
  have "\<not> is_word (content ! (variantStartPos - 1))" "content ! (variantStartPos - 1) \<noteq> CHR '' ''"
    using j(2) by (simp_all add: is_word_def)
  then have "dropWhile is_word (dropWhile (\<lambda>c. c = CHR '' '') (backward content (pos - 1))) \<noteq> []"
    using assms(2) inside j(1) by (intro backward_stops [of "variantStartPos - 1"]) auto
  then show ?thesis
    using assms(2) inside by (intro findPreviousTerm_previous_term) auto
qed

lemma findVariants_scan:
  "findVariants fs s filePath variantType defaultVariants =
     (case fs filePath of
        None \<Rightarrow> Some (Inl ENOENT)
      | Some content \<Rightarrow>
          (let (r, s1) = (case defaultVariants of Some r \<Rightarrow> (r, s) | None \<Rightarrow> alloc s [])
           in case header_search variantType content 0 of
                None \<Rightarrow> Some (Inr (r, s1))
              | Some variantStartPos \<Rightarrow>
                  map_option (\<lambda>(p, vs). Inr (r, set_array s1 r vs))
                    (scan content 1 (Suc variantStartPos) (arrays s1 r))))"
proof (cases "fs filePath")
  case None
  then show ?thesis by (simp add: findVariants_def readFileSync_def)
next
  case (Some content)
  obtain r s1 where rs: "(case defaultVariants of Some r \<Rightarrow> (r, s) | None \<Rightarrow> alloc s []) = (r, s1)"
    by (cases "case defaultVariants of Some r \<Rightarrow> (r, s) | None \<Rightarrow> alloc s []") auto
  show ?thesis
  proof (cases "header_search variantType content 0")
    case None
    with Some rs show ?thesis by (simp add: findVariants_def readFileSync_def)
  next
    case (Some n)
    from header_search_brace [OF this]
    have "n - 1 < Suc n" "n - 1 < length content" "content ! (n - 1) = CHR ''{''"
      by auto
    from findVariants_loop_scan [OF this, of r 1 s1]
    have "findVariants_loop content r 1 (int n + 1) s1
       = map_option (\<lambda>(p, vs). (int p, set_array s1 r vs)) (scan content 1 (Suc n) (arrays s1 r))"
      by (simp add: add.commute)
    with Some \<open>fs filePath = Some content\<close> rs show ?thesis
      by (simp add: findVariants_def readFileSync_def option.map_comp comp_def case_prod_unfold)
  qed
qed

section \<open>What the scan does to the list\<close>

lemma add_variant_extends: "\<exists>new. add_variant vs t = vs @ new \<and> distinct new \<and> set new \<inter> set vs = {}"
  by (auto simp: add_variant_def)

lemma scan_extends:
  "scan content counter pos vs = Some (p, vs') \<Longrightarrow>
   \<exists>new. vs' = vs @ new \<and> distinct new \<and> set new \<inter> set vs = {}"
proof (induction content counter pos vs rule: scan.induct)
  case (1 content counter pos vs)
  show ?case
  proof (cases "counter \<le> 0")
    case True
    with 1(4) show ?thesis by (subst (asm) scan.simps) simp
  next
    case c: False
    show ?thesis
    proof (cases "length content \<le> pos")
      case True
      with c 1(4) show ?thesis by (subst (asm) scan.simps) simp
    next
      case i: False
      show ?thesis
      proof (cases "content ! pos = CHR ''{''")
        case True
        let ?vs = "if counter = 1 then add_variant vs (previous_term content (int pos - 1)) else vs"
        from 1(4) c i True have "scan content (counter + 1) (Suc pos) ?vs = Some (p, vs')"
          by (subst (asm) scan.simps) simp
        from 1(1) [OF c i True this] obtain new
          where new: "vs' = ?vs @ new" "distinct new" "set new \<inter> set ?vs = {}"
          by blast
        obtain new0 where new0: "?vs = vs @ new0" "distinct new0" "set new0 \<inter> set vs = {}"
          using add_variant_extends [of vs "previous_term content (int pos - 1)"] by (cases "counter = 1") auto
        from new new0 have "vs' = vs @ (new0 @ new)" "distinct (new0 @ new)" "set (new0 @ new) \<inter> set vs = {}"
          by auto
        then show ?thesis by blast
      next
        case o: False
        show ?thesis
        proof (cases "content ! pos = CHR ''}''")
          case True
          from 1(4) c i o True have "scan content (counter - 1) (Suc pos) vs = Some (p, vs')"
            by (subst (asm) scan.simps) simp
          from 1(2) [OF c i o True this] show ?thesis .
        next
          case False
          from 1(4) c i o False have "scan content counter (Suc pos) vs = Some (p, vs')"
            by (subst (asm) scan.simps) simp
          from 1(3) [OF c i o False this] show ?thesis .
        qed
      qed
    qed
  qed
qed

lemma scan_distinct:
  assumes "scan content counter pos vs = Some (p, vs')" and "distinct vs"
  shows "distinct vs'"
  using scan_extends [OF assms(1)] assms(2) by auto

lemma scan_absorb:
  "scan content counter pos vs = Some (p, vs') \<Longrightarrow>
   \<forall>ws. set vs' \<subseteq> set ws \<longrightarrow> scan content counter pos ws = Some (p, ws)"
proof (induction content counter pos vs rule: scan.induct)
  case (1 content counter pos vs)
  show ?case
  proof (cases "counter \<le> 0")
    case True
    with 1(4) show ?thesis by (subst (asm) scan.simps, subst scan.simps) simp
  next
    case c: False
    show ?thesis
    proof (cases "length content \<le> pos")
      case True
      with c 1(4) show ?thesis by (subst (asm) scan.simps) simp
    next
      case i: False
      show ?thesis
      proof (cases "content ! pos = CHR ''{''")
        case True
        let ?t = "previous_term content (int pos - 1)"
        let ?vs = "if counter = 1 then add_variant vs ?t else vs"
        from 1(4) c i True have run: "scan content (counter + 1) (Suc pos) ?vs = Some (p, vs')"
          by (subst (asm) scan.simps) simp
        from 1(1) [OF c i True this]
        have IH: "\<And>ws. set vs' \<subseteq> set ws \<Longrightarrow> scan content (counter + 1) (Suc pos) ws = Some (p, ws)"
          by blast
        from scan_extends [OF run] have sub: "set ?vs \<subseteq> set vs'" by auto
        show ?thesis
        proof (intro allI impI)
          fix ws assume ws: "set vs' \<subseteq> set ws"
          have "counter = 1 \<Longrightarrow> ?t \<in> set ws"
            using sub ws by (auto simp: add_variant_def split: if_splits)
          then have "(if counter = 1 then add_variant ws ?t else ws) = ws"
            by (simp add: add_variant_def)
          with IH [OF ws] c i True show "scan content counter pos ws = Some (p, ws)"
            by (subst scan.simps) simp
        qed
      next
        case o: False
        show ?thesis
        proof (cases "content ! pos = CHR ''}''")
          case True
          from 1(4) c i o True have "scan content (counter - 1) (Suc pos) vs = Some (p, vs')"
            by (subst (asm) scan.simps) simp
          from 1(2) [OF c i o True this] c i o True show ?thesis
            by (subst scan.simps) simp
        next
          case False
          from 1(4) c i o False have "scan content counter (Suc pos) vs = Some (p, vs')"
            by (subst (asm) scan.simps) simp
          from 1(3) [OF c i o False this] c i o False show ?thesis
            by (subst scan.simps) simp
        qed
      qed
    qed
  qed
qed

lemma defaults_list_chosen:
  "(case defaultVariants of Some r \<Rightarrow> (r, s) | None \<Rightarrow> alloc s []) = (r, s1) \<Longrightarrow>
   arrays s1 r = defaults_list s defaultVariants"
  by (auto simp: defaults_list_def alloc_def split: option.splits)

lemma returned_list_findVariants:
  "returned_list (findVariants fs s filePath variantType defaultVariants) =
     (case fs filePath of
        None \<Rightarrow> Some (Inl ENOENT)
      | Some content \<Rightarrow>
          (case header_search variantType content 0 of
             None \<Rightarrow> Some (Inr (defaults_list s defaultVariants))
           | Some variantStartPos \<Rightarrow>
               map_option (\<lambda>(p, vs). Inr vs)
                 (scan content 1 (Suc variantStartPos) (defaults_list s defaultVariants))))"
proof -
  obtain r s1 where rs: "(case defaultVariants of Some r \<Rightarrow> (r, s) | None \<Rightarrow> alloc s []) = (r, s1)"
    by (cases "case defaultVariants of Some r \<Rightarrow> (r, s) | None \<Rightarrow> alloc s []") auto
  from defaults_list_chosen [OF rs] rs show ?thesis
    by (simp add: findVariants_scan returned_list_def option.map_comp comp_def case_prod_unfold
        split: option.splits)
qed

section \<open>Evaluation on the example build files\<close>

lemma arrays_defaults_store [simp]:
  "arrays (snd (alloc empty_store xs)) 0 = xs"
  by (simp add: alloc_def empty_store_def)

lemma header_staging: "header_search ''buildTypes'' gradle_staging 0 = Some 24"
  by code_simp

lemma scan_staging:
  "scan gradle_staging 1 25 [''debug'', ''release'']
     = Some (48, [''debug'', ''release'', ''staging''])"
  by code_simp

lemma header_no_block: "header_search ''buildTypes'' gradle_no_block 0 = None"
  by code_simp

lemma findVariants_staging:
  "findVariants (single_file ''app/build.gradle'' gradle_staging)
       (snd (alloc empty_store [''debug'', ''release''])) ''app/build.gradle'' ''buildTypes'' (Some 0)
     = Some (Inr (0, set_array (snd (alloc empty_store [''debug'', ''release''])) 0
                       [''debug'', ''release'', ''staging'']))"
  by (simp add: findVariants_scan single_file_def header_staging scan_staging)

section \<open>The claims about the list that findVariants returns\<close>

lemma child_braces_zero: "child_braces xs 0 pos = []"
  by (cases xs) auto

lemma child_braces_brace:
  "p \<in> set (child_braces xs counter pos) \<Longrightarrow>
   pos \<le> p \<and> p < pos + length xs \<and> xs ! (p - pos) = CHR ''{''"
proof (induction xs arbitrary: counter pos)
  case Nil
  then show ?case by simp
next
  case (Cons c cs)
  from Cons.prems
  have "(p = pos \<and> c = CHR ''{'') \<or> (\<exists>k. p \<in> set (child_braces cs k (Suc pos)))"
    by (auto split: if_splits)
  then show ?case
  proof
    assume "p = pos \<and> c = CHR ''{''"
    then show ?thesis by simp
  next
    assume "\<exists>k. p \<in> set (child_braces cs k (Suc pos))"
    then obtain k where "p \<in> set (child_braces cs k (Suc pos))" ..
    from Cons.IH [OF this] show ?thesis
      by (auto simp: nth_Cons' Suc_le_eq)
  qed
qed

lemma scan_child_braces:
  "scan content counter pos vs = Some (p, vs') \<Longrightarrow>
   vs' = foldl add_variant vs
     (map (\<lambda>q. previous_term content (int q - 1)) (child_braces (drop pos content) (nat counter) pos))"
proof (induction content counter pos vs rule: scan.induct)
  case (1 content counter pos vs)
  show ?case
  proof (cases "counter \<le> 0")
    case True
    with 1(4) show ?thesis
      by (subst (asm) scan.simps) (simp add: child_braces_zero)
  next
    case c: False
    show ?thesis
    proof (cases "length content \<le> pos")
      case True
      with c 1(4) show ?thesis by (subst (asm) scan.simps) simp
    next
      case i: False
      then have dr: "drop pos content = content ! pos # drop (Suc pos) content"
        by (simp add: Cons_nth_drop_Suc)
      from c have n: "nat counter \<noteq> 0" "nat (counter + 1) = Suc (nat counter)"
        "nat (counter - 1) = nat counter - 1" "nat counter = 1 \<longleftrightarrow> counter = 1"
        by auto
      show ?thesis
      proof (cases "content ! pos = CHR ''{''")
        case True
        let ?vs = "if counter = 1 then add_variant vs (previous_term content (int pos - 1)) else vs"
        from 1(4) c i True have "scan content (counter + 1) (Suc pos) ?vs = Some (p, vs')"
          by (subst (asm) scan.simps) simp
        from 1(1) [OF c i True this] True dr n show ?thesis
          by simp
      next
        case o: False
        show ?thesis
        proof (cases "content ! pos = CHR ''}''")
          case True
          from 1(4) c i o True have "scan content (counter - 1) (Suc pos) vs = Some (p, vs')"
            by (subst (asm) scan.simps) simp
          from 1(2) [OF c i o True this] o True dr n show ?thesis
            by simp
        next
          case False
          from 1(4) c i o False have "scan content counter (Suc pos) vs = Some (p, vs')"
            by (subst (asm) scan.simps) simp
          from 1(3) [OF c i o False this] o False dr n show ?thesis
            by simp
        qed
      qed
    qed
  qed
qed

lemma set_foldl_add_variant: "set (foldl add_variant vs ts) = set vs \<union> set ts"
  by (induction ts arbitrary: vs) (auto simp: add_variant_def)

lemma foldl_add_variant_present: "set ts \<subseteq> set vs \<Longrightarrow> foldl add_variant vs ts = vs"
  by (induction ts arbitrary: vs) (auto simp: add_variant_def)

lemma foldl_add_variant_unchanged: "foldl add_variant vs ts = vs \<longleftrightarrow> set ts \<subseteq> set vs"
proof
  assume "foldl add_variant vs ts = vs"
  then have "set vs \<union> set ts = set vs"
    using set_foldl_add_variant [of vs ts] by simp
  then show "set ts \<subseteq> set vs" by auto
qed (rule foldl_add_variant_present)

lemma child_terms_after_header:
  assumes "header_search variantType content 0 = Some variantStartPos"
  shows "child_terms content (Suc variantStartPos)
     = map Some (map (\<lambda>q. previous_term content (int q - 1))
         (child_braces (drop (Suc variantStartPos) content) 1 (Suc variantStartPos)))"
proof -
  have "findPreviousTerm content (int q - 1) = Some (previous_term content (int q - 1))"
    if "q \<in> set (child_braces (drop (Suc variantStartPos) content) 1 (Suc variantStartPos))" for q
  proof -
    from child_braces_brace [OF that]
    have "Suc variantStartPos \<le> q" "q < length content" "content ! q = CHR ''{''"
      by auto
    then have "int variantStartPos < int q" "char_at content (int q) = Some CHR ''{''"
      by (auto simp: char_at_def)
    from findPreviousTerm_after_header [OF assms this] show ?thesis .
  qed
  then show ?thesis
    by (simp add: child_terms_def)
qed

text \<open>
  C6, as amended. \<open>findVariants\<close> returns the very array it was given as the defaults and
  appends to that array: after the call the caller's array holds its former elements in
  their order, followed by new ones (pairwise distinct and none of them among the
  former elements), and no other array has changed. What is appended are the
  identifiers that \<open>findPreviousTerm\<close> returns before the opening braces met with the
  counter at 1, each in its turn unless the array holds it already; so the array is
  unchanged when the file has no header, and otherwise exactly when it held all of
  these identifiers before.
\<close>

theorem findVariants_appends_to_defaults:
  assumes "findVariants fs s filePath variantType (Some r) = Some (Inr (r', s'))"
  shows "r' = r \<and>
    (\<exists>new. arrays s' r = arrays s r @ new \<and> distinct new \<and> set new \<inter> set (arrays s r) = {}) \<and>
    (\<forall>q. q \<noteq> r \<longrightarrow> arrays s' q = arrays s q) \<and>
    (\<exists>content. fs filePath = Some content \<and>
       (case header_search variantType content 0 of
          None \<Rightarrow> arrays s' r = arrays s r
        | Some variantStartPos \<Rightarrow>
            (\<exists>ts. child_terms content (Suc variantStartPos) = map Some ts
               \<and> arrays s' r = foldl add_variant (arrays s r) ts
               \<and> (arrays s' r = arrays s r \<longleftrightarrow> set ts \<subseteq> set (arrays s r)))))"
proof (cases "fs filePath")
  case None
  with assms show ?thesis by (simp add: findVariants_scan)
next
  case (Some content)
  show ?thesis
  proof (cases "header_search variantType content 0")
    case None
    with Some assms show ?thesis by (simp add: findVariants_scan)
  next
    case (Some n)
    with assms \<open>fs filePath = Some content\<close>
    obtain p vs where run: "scan content 1 (Suc n) (arrays s r) = Some (p, vs)"
      and res: "r' = r" "s' = set_array s r vs"
      by (auto simp: findVariants_scan)
    let ?ts = "map (\<lambda>q. previous_term content (int q - 1))
      (child_braces (drop (Suc n) content) 1 (Suc n))"
    from scan_child_braces [OF run] have vs: "vs = foldl add_variant (arrays s r) ?ts"
      by simp
    have "child_terms content (Suc n) = map Some ?ts
        \<and> vs = foldl add_variant (arrays s r) ?ts
        \<and> (vs = arrays s r \<longleftrightarrow> set ?ts \<subseteq> set (arrays s r))"
      using child_terms_after_header [OF Some] vs foldl_add_variant_unchanged [of "arrays s r" ?ts]
      by simp
    then have "\<exists>ts. child_terms content (Suc n) = map Some ts
        \<and> vs = foldl add_variant (arrays s r) ts
        \<and> (vs = arrays s r \<longleftrightarrow> set ts \<subseteq> set (arrays s r))"
      by (rule exI)
    with scan_extends [OF run] res Some \<open>fs filePath = Some content\<close> show ?thesis
      by simp
  qed
qed

lemma child_terms_staging: "child_terms gradle_staging 25 = [Some ''staging'']"
  by code_simp

theorem findVariants_appends_to_defaults_witness:
  "findVariants (single_file ''app/build.gradle'' gradle_staging)
       (snd (alloc empty_store [''debug'', ''release''])) ''app/build.gradle'' ''buildTypes'' (Some 0)
     = Some (Inr (0, set_array (snd (alloc empty_store [''debug'', ''release''])) 0
                       [''debug'', ''release'', ''staging'']))
   \<and> header_search ''buildTypes'' gradle_staging 0 = Some 24
   \<and> child_terms gradle_staging 25 = map Some [''staging'']
   \<and> [''debug'', ''release'', ''staging'']
       = foldl add_variant [''debug'', ''release''] [''staging'']"
proof -
  have a: "[''debug'', ''release'', ''staging'']
       = foldl add_variant [''debug'', ''release''] [''staging'']"
    by (simp add: add_variant_def)
  from findVariants_appends_to_defaults [OF findVariants_staging]
    findVariants_staging header_staging child_terms_staging a
  show ?thesis by simp
qed

text \<open>
  C6 as stated fails: after the call on a file with the build type \<open>staging\<close>, the
  caller's defaults array, which held \<open>debug\<close> and \<open>release\<close>, holds \<open>staging\<close> as well.
\<close>

theorem findVariants_changes_defaults:
  "arrays (snd (alloc empty_store [''debug'', ''release''])) 0 = [''debug'', ''release'']
   \<and> array_after 0
       (findVariants (single_file ''app/build.gradle'' gradle_staging)
          (snd (alloc empty_store [''debug'', ''release''])) ''app/build.gradle'' ''buildTypes'' (Some 0))
     = Some (Inr [''debug'', ''release'', ''staging''])"
  by (simp add: findVariants_staging array_after_def)

text \<open>
  C9. The defaults are a VariantList, which holds no two equal entries, as the list
  \<open>['debug', 'release']\<close> of the only call does (\<open>undefined\<close> defaults stand for the empty
  list). Then, for every file content and block name, the list that \<open>findVariants\<close>
  returns holds no two equal entries.
\<close>

theorem findVariants_distinct:
  assumes "distinct (defaults_list s defaultVariants)"
    and "returned_list (findVariants fs s filePath variantType defaultVariants) = Some (Inr vs)"
  shows "distinct vs"
proof (cases "fs filePath")
  case None
  with assms(2) show ?thesis by (simp add: returned_list_findVariants)
next
  case (Some content)
  show ?thesis
  proof (cases "header_search variantType content 0")
    case None
    with Some assms show ?thesis by (auto simp: returned_list_findVariants)
  next
    case (Some n)
    with assms(2) \<open>fs filePath = Some content\<close>
    obtain p where "scan content 1 (Suc n) (defaults_list s defaultVariants) = Some (p, vs)"
      by (auto simp: returned_list_findVariants)
    from scan_distinct [OF this assms(1)] show ?thesis .
  qed
qed

theorem findVariants_distinct_witness:
  "distinct (defaults_list (snd (alloc empty_store [''debug'', ''release''])) (Some 0))
   \<and> returned_list (findVariants (single_file ''app/build.gradle'' gradle_staging)
        (snd (alloc empty_store [''debug'', ''release''])) ''app/build.gradle'' ''buildTypes'' (Some 0))
      = Some (Inr [''debug'', ''release'', ''staging''])
   \<and> distinct [''debug'', ''release'', ''staging'']"
proof -
  have d: "distinct (defaults_list (snd (alloc empty_store [''debug'', ''release''])) (Some 0))"
    by (simp add: defaults_list_def)
  have r: "returned_list (findVariants (single_file ''app/build.gradle'' gradle_staging)
        (snd (alloc empty_store [''debug'', ''release''])) ''app/build.gradle'' ''buildTypes'' (Some 0))
      = Some (Inr [''debug'', ''release'', ''staging''])"
    by (simp add: findVariants_staging returned_list_def)
  from findVariants_distinct [OF d r] d r show ?thesis by simp
qed

text \<open>
  C10. Over the same file content and block name, two runs of \<open>findVariants\<close> whose
  defaults hold the same list have the same outcome and return the same list, in the
  same order; and a second run on the array that the first run returned returns that
  array with its contents unchanged.
\<close>

theorem findVariants_idempotent:
  "(defaults_list t defaultVariants' = defaults_list s defaultVariants \<longrightarrow>
      returned_list (findVariants fs t filePath variantType defaultVariants')
        = returned_list (findVariants fs s filePath variantType defaultVariants))
   \<and> (findVariants fs s filePath variantType defaultVariants = Some (Inr (r, s')) \<longrightarrow>
      findVariants fs s' filePath variantType (Some r) = Some (Inr (r, s')))"
proof (intro conjI impI)
  assume "defaults_list t defaultVariants' = defaults_list s defaultVariants"
  then show "returned_list (findVariants fs t filePath variantType defaultVariants')
        = returned_list (findVariants fs s filePath variantType defaultVariants)"
    by (simp add: returned_list_findVariants split: option.splits)
next
  assume run: "findVariants fs s filePath variantType defaultVariants = Some (Inr (r, s'))"
  obtain r0 s1 where rs: "(case defaultVariants of Some r \<Rightarrow> (r, s) | None \<Rightarrow> alloc s []) = (r0, s1)"
    by (cases "case defaultVariants of Some r \<Rightarrow> (r, s) | None \<Rightarrow> alloc s []") auto
  show "findVariants fs s' filePath variantType (Some r) = Some (Inr (r, s'))"
  proof (cases "fs filePath")
    case None
    with run show ?thesis by (simp add: findVariants_scan)
  next
    case (Some content)
    show ?thesis
    proof (cases "header_search variantType content 0")
      case None
      with Some run rs show ?thesis by (simp add: findVariants_scan)
    next
      case (Some n)
      with run rs \<open>fs filePath = Some content\<close>
      obtain p vs where first: "scan content 1 (Suc n) (arrays s1 r0) = Some (p, vs)"
        and res: "r = r0" "s' = set_array s1 r0 vs"
        by (auto simp: findVariants_scan)
      from scan_absorb [OF first] have "scan content 1 (Suc n) vs = Some (p, vs)"
        by simp
      with Some res \<open>fs filePath = Some content\<close> show ?thesis
        by (simp add: findVariants_scan)
    qed
  qed
qed

theorem findVariants_idempotent_witness:
  "defaults_list (set_array empty_store 5 [''debug'', ''release'']) (Some 5)
     = defaults_list (snd (alloc empty_store [''debug'', ''release''])) (Some 0)
   \<and> returned_list (findVariants (single_file ''app/build.gradle'' gradle_staging)
         (set_array empty_store 5 [''debug'', ''release'']) ''app/build.gradle'' ''buildTypes'' (Some 5))
     = returned_list (findVariants (single_file ''app/build.gradle'' gradle_staging)
         (snd (alloc empty_store [''debug'', ''release''])) ''app/build.gradle'' ''buildTypes'' (Some 0))
   \<and> findVariants (single_file ''app/build.gradle'' gradle_staging)
         (snd (alloc empty_store [''debug'', ''release''])) ''app/build.gradle'' ''buildTypes'' (Some 0)
     = Some (Inr (0, set_array (snd (alloc empty_store [''debug'', ''release''])) 0
                       [''debug'', ''release'', ''staging'']))
   \<and> findVariants (single_file ''app/build.gradle'' gradle_staging)
         (set_array (snd (alloc empty_store [''debug'', ''release''])) 0
            [''debug'', ''release'', ''staging''])
         ''app/build.gradle'' ''buildTypes'' (Some 0)
     = Some (Inr (0, set_array (snd (alloc empty_store [''debug'', ''release''])) 0
                       [''debug'', ''release'', ''staging'']))"
proof -
  have d: "defaults_list (set_array empty_store 5 [''debug'', ''release'']) (Some 5)
     = defaults_list (snd (alloc empty_store [''debug'', ''release''])) (Some 0)"
    by (simp add: defaults_list_def)
  from findVariants_idempotent
    [of "set_array empty_store 5 [''debug'', ''release'']" "Some 5"
        "snd (alloc empty_store [''debug'', ''release''])" "Some 0"
        "single_file ''app/build.gradle'' gradle_staging" "''app/build.gradle''" "''buildTypes''"
        0 "set_array (snd (alloc empty_store [''debug'', ''release''])) 0
                       [''debug'', ''release'', ''staging'']"]
    d findVariants_staging
  show ?thesis by simp
qed

section \<open>splitVariant and getManifestFile\<close>

lemma splitVariant_returned:
  "splitVariant fs gradleFilePath variant =
     (case returned_list (findVariants fs (snd (alloc empty_store [''debug'', ''release'']))
             gradleFilePath ''buildTypes'' (Some 0)) of
        None \<Rightarrow> None
      | Some (Inl e) \<Rightarrow> Some (Inl e)
      | Some (Inr buildTypes) \<Rightarrow>
          (case alternation_exec buildTypes variant of
             Some index \<Rightarrow>
               (case variant of
                  None \<Rightarrow> Some (Inl TypeError)
                | Some v \<Rightarrow> Some (Inr (Some (drop index v), Some (take index v))))
           | None \<Rightarrow> Some (Inr (variant, None))))"
  by (simp add: splitVariant_def returned_list_def alloc_def empty_store_def
      split: option.splits sum.splits prod.splits)

lemma exec_demoRelease: "alternation_exec [''debug'', ''release''] (Some ''demoRelease'') = Some 4"
  by code_simp

lemma exec_undefined: "alternation_exec [''debug'', ''release''] None = None"
  by code_simp

lemma flag_no_block: "flag_search gradle_no_block = None"
  by code_simp

lemma flag_true: "flag_search gradle_flag_true = Some ''true''"
  by code_simp

lemma flag_false: "flag_search gradle_flag_false = Some ''false''"
  by code_simp

lemma header_flag_true: "header_search ''buildTypes'' gradle_flag_true 0 = None"
  by code_simp

lemma header_flag_false: "header_search ''buildTypes'' gradle_flag_false 0 = None"
  by code_simp

lemma lower_true: "toLowerCase ''true'' = ''true''"
  by code_simp

lemma lower_false: "toLowerCase ''false'' = ''false''"
  by code_simp

lemma returned_defaults:
  "header_search ''buildTypes'' content 0 = None \<Longrightarrow>
   returned_list (findVariants (single_file ''app/build.gradle'' content)
       (snd (alloc empty_store [''debug'', ''release''])) ''app/build.gradle'' ''buildTypes'' (Some 0))
     = Some (Inr [''debug'', ''release''])"
  by (simp add: returned_list_findVariants single_file_def defaults_list_def)

text \<open>
  C7. When the build file yields the default base types \<open>debug\<close> and \<open>release\<close>, the pattern
  matches \<open>demoRelease\<close> first at index 4 and \<open>splitVariant\<close> returns the base type
  \<open>Release\<close> and the flavor \<open>demo\<close>.
\<close>

theorem splitVariant_demoRelease:
  assumes "returned_list (findVariants fs (snd (alloc empty_store [''debug'', ''release'']))
             gradleFilePath ''buildTypes'' (Some 0)) = Some (Inr [''debug'', ''release''])"
  shows "alternation_exec [''debug'', ''release''] (Some ''demoRelease'') = Some 4
    \<and> splitVariant fs gradleFilePath (Some ''demoRelease'') = Some (Inr (Some ''Release'', Some ''demo''))"
  using assms by (simp add: splitVariant_returned exec_demoRelease)

theorem splitVariant_demoRelease_witness:
  "returned_list (findVariants (single_file ''app/build.gradle'' gradle_no_block)
       (snd (alloc empty_store [''debug'', ''release''])) ''app/build.gradle'' ''buildTypes'' (Some 0))
     = Some (Inr [''debug'', ''release''])
   \<and> splitVariant (single_file ''app/build.gradle'' gradle_no_block) ''app/build.gradle''
        (Some ''demoRelease'') = Some (Inr (Some ''Release'', Some ''demo''))"
  using splitVariant_demoRelease [OF returned_defaults [OF header_no_block]]
    returned_defaults [OF header_no_block]
  by simp

text \<open>
  C2, as amended. For the variant \<open>demoRelease\<close>, base types left at the defaults and a
  flag that reads false, \<open>getManifestFile\<close> returns the path whose segments are the
  flavor \<open>demo\<close> and then the base type as the variant spells it, \<open>Release\<close>.
\<close>

theorem getManifestFile_demoRelease:
  assumes "returned_list (findVariants fs (snd (alloc empty_store [''debug'', ''release'']))
             ''app/build.gradle'' ''buildTypes'' (Some 0)) = Some (Inr [''debug'', ''release''])"
    and "fs ''app/build.gradle'' = Some content"
    and "flag_search content = Some separateBuild"
    and "toLowerCase separateBuild = ''false''"
  shows "getManifestFile fs (Some ''demoRelease'')
     = Some (Inr ''app/build/intermediates/manifests/full/demo/Release/AndroidManifest.xml'')"
  using assms
  by (simp add: getManifestFile_def splitVariant_returned exec_demoRelease
      isSeparateBuildEnabled_def readFileSync_def truthy_def)

theorem getManifestFile_demoRelease_witness:
  "returned_list (findVariants (single_file ''app/build.gradle'' gradle_flag_false)
       (snd (alloc empty_store [''debug'', ''release''])) ''app/build.gradle'' ''buildTypes'' (Some 0))
     = Some (Inr [''debug'', ''release''])
   \<and> flag_search gradle_flag_false = Some ''false''
   \<and> toLowerCase ''false'' = ''false''
   \<and> getManifestFile (single_file ''app/build.gradle'' gradle_flag_false) (Some ''demoRelease'')
     = Some (Inr ''app/build/intermediates/manifests/full/demo/Release/AndroidManifest.xml'')"
proof -
  have f: "single_file ''app/build.gradle'' gradle_flag_false ''app/build.gradle'' = Some gradle_flag_false"
    by (simp add: single_file_def)
  from getManifestFile_demoRelease [OF returned_defaults [OF header_flag_false] f flag_false lower_false]
    returned_defaults [OF header_flag_false] flag_false lower_false
  show ?thesis by simp
qed

text \<open>
  C2 as stated fails: on a build file with the flag set to false and no \<open>buildTypes\<close>
  block, the path returned for \<open>demoRelease\<close> is not the one with the segment \<open>release\<close>.
\<close>

theorem getManifestFile_demoRelease_not_lower_case:
  "getManifestFile (single_file ''app/build.gradle'' gradle_flag_false) (Some ''demoRelease'')
     \<noteq> Some (Inr ''app/build/intermediates/manifests/full/demo/release/AndroidManifest.xml'')"
  by code_simp

text \<open>
  C1: what the code does. With no variant, base types left at the defaults and a flag
  that reads true, the base type is \<open>undefined\<close> and is joined as an empty segment: the
  path has nothing between \<open>x86\<close> and the file name, where the claim has \<open>debug\<close>.
\<close>

theorem getManifestFile_no_variant:
  assumes "returned_list (findVariants fs (snd (alloc empty_store [''debug'', ''release'']))
             ''app/build.gradle'' ''buildTypes'' (Some 0)) = Some (Inr [''debug'', ''release''])"
    and "fs ''app/build.gradle'' = Some content"
    and "flag_search content = Some separateBuild"
    and "toLowerCase separateBuild = ''true''"
  shows "getManifestFile fs None
     = Some (Inr ''app/build/intermediates/manifests/full/x86//AndroidManifest.xml'')"
  using assms
  by (simp add: getManifestFile_def splitVariant_returned exec_undefined
      isSeparateBuildEnabled_def readFileSync_def truthy_def)

theorem getManifestFile_no_variant_witness:
  "returned_list (findVariants (single_file ''app/build.gradle'' gradle_flag_true)
       (snd (alloc empty_store [''debug'', ''release''])) ''app/build.gradle'' ''buildTypes'' (Some 0))
     = Some (Inr [''debug'', ''release''])
   \<and> flag_search gradle_flag_true = Some ''true''
   \<and> toLowerCase ''true'' = ''true''
   \<and> getManifestFile (single_file ''app/build.gradle'' gradle_flag_true) None
     = Some (Inr ''app/build/intermediates/manifests/full/x86//AndroidManifest.xml'')"
proof -
  have f: "single_file ''app/build.gradle'' gradle_flag_true ''app/build.gradle'' = Some gradle_flag_true"
    by (simp add: single_file_def)
  from getManifestFile_no_variant [OF returned_defaults [OF header_flag_true] f flag_true lower_true]
    returned_defaults [OF header_flag_true] flag_true lower_true
  show ?thesis by simp
qed

text \<open>
  C3, as amended. When the build file holds no assignment of the flag,
  \<open>isSeparateBuildEnabled\<close> reads \<open>[1]\<close> of the \<open>null\<close> that \<open>match\<close> returns and throws a
  TypeError; so \<open>getManifestFile\<close> throws a TypeError, unless \<open>splitVariant\<close> does not
  return. The code has no error of its own for a malformed build file.
\<close>

theorem getManifestFile_no_flag:
  assumes "fs ''app/build.gradle'' = Some content" and "flag_search content = None"
  shows "isSeparateBuildEnabled fs ''app/build.gradle'' = Inl TypeError
    \<and> (getManifestFile fs variant = None \<or> getManifestFile fs variant = Some (Inl TypeError))"
proof -
  have sep: "isSeparateBuildEnabled fs ''app/build.gradle'' = Inl TypeError"
    using assms by (simp add: isSeparateBuildEnabled_def readFileSync_def)
  have ne: "splitVariant fs ''app/build.gradle'' variant \<noteq> Some (Inl ENOENT)"
    using assms(1)
    by (auto simp: splitVariant_returned returned_list_findVariants split: option.splits sum.splits)
  have "getManifestFile fs variant = None \<or> getManifestFile fs variant = Some (Inl TypeError)"
  proof (cases "splitVariant fs ''app/build.gradle'' variant")
    case None
    then show ?thesis by (simp add: getManifestFile_def)
  next
    case (Some res)
    show ?thesis
    proof (cases res)
      case (Inl e)
      with Some ne have "e = TypeError" by (cases e) auto
      with Some Inl show ?thesis by (simp add: getManifestFile_def)
    next
      case (Inr pair)
      with Some sep show ?thesis
        by (cases pair) (simp add: getManifestFile_def)
    qed
  qed
  with sep show ?thesis by simp
qed

theorem getManifestFile_no_flag_witness:
  "single_file ''app/build.gradle'' gradle_no_block ''app/build.gradle'' = Some gradle_no_block
   \<and> flag_search gradle_no_block = None
   \<and> isSeparateBuildEnabled (single_file ''app/build.gradle'' gradle_no_block) ''app/build.gradle''
       = Inl TypeError
   \<and> getManifestFile (single_file ''app/build.gradle'' gradle_no_block) (Some ''debug'')
       = Some (Inl TypeError)"
proof -
  have f: "single_file ''app/build.gradle'' gradle_no_block ''app/build.gradle'' = Some gradle_no_block"
    by (simp add: single_file_def)
  have r: "getManifestFile (single_file ''app/build.gradle'' gradle_no_block) (Some ''debug'') \<noteq> None"
    by code_simp
  from getManifestFile_no_flag
    [of "single_file ''app/build.gradle'' gradle_no_block" gradle_no_block "Some ''debug''",
     OF f flag_no_block]
    f flag_no_block r
  show ?thesis by simp
qed

text \<open>
  C3 as stated fails: on a build file without the assignment, the call for the variant
  \<open>demoRelease\<close> ends with the TypeError of reading \<open>[1]\<close> of \<open>null\<close>, the only kind of
  error there is besides a failed read of the file.
\<close>

theorem getManifestFile_no_flag_throws_TypeError:
  "flag_search gradle_no_block = None
   \<and> getManifestFile (single_file ''app/build.gradle'' gradle_no_block) (Some ''demoRelease'')
     = Some (Inl TypeError)"
  by code_simp

section \<open>The end of the scan\<close>

text \<open>The position at which the loop ends is the one after the closing brace that takes
  the counter to 0, and the loop does not end when there is no such brace.\<close>

lemma scan_block_end:
  "0 < counter \<Longrightarrow>
   map_option fst (scan content counter pos vs)
     = map_option Suc (spec_block_end_from (drop pos content) (nat counter) pos)"
proof (induction content counter pos vs rule: scan.induct)
  case (1 content counter pos vs)
  show ?case
  proof (cases "length content \<le> pos")
    case True
    with 1(4) show ?thesis by (subst scan.simps) simp
  next
    case i: False
    then have dr: "drop pos content = content ! pos # drop (Suc pos) content"
      by (simp add: Cons_nth_drop_Suc)
    from 1(4) have c: "\<not> counter \<le> 0" by simp
    show ?thesis
    proof (cases "content ! pos = CHR ''{''")
      case True
      have "nat (counter + 1) = Suc (nat counter)" using 1(4) by simp
      with 1(1) [OF c i True] 1(4) c i True dr show ?thesis
        by (subst scan.simps) simp
    next
      case o: False
      show ?thesis
      proof (cases "content ! pos = CHR ''}''")
        case True
        show ?thesis
        proof (cases "counter = 1")
          case one: True
          have "scan content 0 (Suc pos) vs = Some (Suc pos, vs)"
            by (subst scan.simps) simp
          with one c i o True dr show ?thesis
            by (subst scan.simps) simp
        next
          case False
          with 1(4) have "0 < counter - 1" "nat (counter - 1) = nat counter - 1" "\<not> nat counter \<le> 1"
            by auto
          with 1(2) [OF c i o True] c i o True dr show ?thesis
            by (subst scan.simps) simp
        qed
      next
        case False
        with 1(3) [OF c i o False] 1(4) c i o dr show ?thesis
          by (subst scan.simps) simp
      qed
    qed
  qed
qed

text \<open>
  The loop starts at \<open>regex.lastIndex + 1\<close>, one character after the position that
  follows the opening brace. When that character is not a brace, the loop ends after
  the closing brace of the block, or does not end when the block is not closed.
\<close>

lemma findVariants_loop_block_end:
  assumes "header_search variantType content 0 = Some variantStartPos"
    and "variantStartPos < length content"
    and "content ! variantStartPos \<noteq> CHR ''{''" and "content ! variantStartPos \<noteq> CHR ''}''"
  shows "map_option fst (findVariants_loop content r 1 (int variantStartPos + 1) s)
     = map_option (\<lambda>e. int e + 1) (spec_block_end content variantStartPos)"
proof -
  from header_search_brace [OF assms(1)]
  have "variantStartPos - 1 < Suc variantStartPos" "variantStartPos - 1 < length content"
    "content ! (variantStartPos - 1) = CHR ''{''"
    by auto
  from findVariants_loop_scan [OF this, of r 1 s]
  have "map_option fst (findVariants_loop content r 1 (int variantStartPos + 1) s)
      = map_option int (map_option fst (scan content 1 (Suc variantStartPos) (arrays s r)))"
    by (simp add: add.commute option.map_comp comp_def case_prod_unfold)
  also have "\<dots> = map_option int (map_option Suc
      (spec_block_end_from (drop (Suc variantStartPos) content) 1 (Suc variantStartPos)))"
    using scan_block_end [of 1 content "Suc variantStartPos" "arrays s r"] by simp
  also have "spec_block_end_from (drop (Suc variantStartPos) content) 1 (Suc variantStartPos)
      = spec_block_end content variantStartPos"
    using assms(2-4) by (simp add: spec_block_end_def Cons_nth_drop_Suc [symmetric])
  finally show ?thesis
    by (simp add: option.map_comp comp_def add.commute)
qed

text \<open>
  C4: what the code does. When, from the position where the loop starts, no closing
  brace takes the counter back to 0 before the end of the content, \<open>findVariants\<close> does
  not return: the loop goes on reading \<open>undefined\<close> past the end, and no error is thrown.
\<close>

theorem findVariants_unbalanced:
  assumes "fs filePath = Some content"
    and "header_search variantType content 0 = Some variantStartPos"
    and "spec_block_end_from (drop (Suc variantStartPos) content) 1 (Suc variantStartPos) = None"
  shows "findVariants fs s filePath variantType defaultVariants = None"
proof -
  have "map_option fst (scan content 1 (Suc variantStartPos) vs) = None" for vs
    using scan_block_end [of 1 content "Suc variantStartPos" vs] assms(3) by simp
  then have "scan content 1 (Suc variantStartPos) vs = None" for vs
    by simp
  with assms(1,2) show ?thesis
    by (simp add: findVariants_scan case_prod_unfold)
qed

lemma header_unclosed: "header_search ''buildTypes'' gradle_unclosed 0 = Some 12"
  by code_simp

lemma block_end_unclosed: "spec_block_end_from (drop (Suc 12) gradle_unclosed) 1 (Suc 12) = None"
  by code_simp

theorem findVariants_unbalanced_witness:
  "header_search ''buildTypes'' gradle_unclosed 0 = Some 12
   \<and> spec_block_end_from (drop (Suc 12) gradle_unclosed) 1 (Suc 12) = None
   \<and> findVariants (single_file ''app/build.gradle'' gradle_unclosed)
        (snd (alloc empty_store [''debug'', ''release''])) ''app/build.gradle'' ''buildTypes'' (Some 0)
     = None"
proof -
  have f: "single_file ''app/build.gradle'' gradle_unclosed ''app/build.gradle'' = Some gradle_unclosed"
    by (simp add: single_file_def)
  from findVariants_unbalanced
    [of "single_file ''app/build.gradle'' gradle_unclosed" "''app/build.gradle''" gradle_unclosed
        "''buildTypes''" 12 "snd (alloc empty_store [''debug'', ''release''])" "Some 0",
     OF f header_unclosed block_end_unclosed]
    header_unclosed block_end_unclosed
  show ?thesis by simp
qed

lemma header_empty_block: "header_search ''buildTypes'' gradle_empty_block 0 = Some 24"
  by code_simp

lemma scan_empty_block:
  "scan gradle_empty_block 1 25 [''debug'', ''release'']
     = Some (50, [''debug'', ''release'', ''productFlavors''])"
  by code_simp

lemma brace_empty_block: "23 < length gradle_empty_block \<and> gradle_empty_block ! 23 = CHR ''{''"
  by code_simp

text \<open>
  C5: what the code does on a balanced file with an empty block. The block that the
  header opens is closed at index 24, so the scan should end at position 25; but the
  loop starts at 25, misses that brace, takes the sibling block \<open>productFlavors\<close> for a
  build type and ends at position 50, after the closing brace of the enclosing block.
\<close>

theorem findVariants_loop_skips_closing_brace:
  "header_search ''buildTypes'' gradle_empty_block 0 = Some 24
   \<and> spec_block_end gradle_empty_block 24 = Some 24
   \<and> map_option fst
       (findVariants_loop gradle_empty_block 0 1 25 (snd (alloc empty_store [''debug'', ''release''])))
     = Some 50
   \<and> returned_list (findVariants (single_file ''app/build.gradle'' gradle_empty_block)
        (snd (alloc empty_store [''debug'', ''release''])) ''app/build.gradle'' ''buildTypes'' (Some 0))
     = Some (Inr [''debug'', ''release'', ''productFlavors''])"
proof -
  have e: "spec_block_end gradle_empty_block 24 = Some 24"
    by code_simp
  from brace_empty_block
  have "(23::nat) < 25" "23 < length gradle_empty_block" "gradle_empty_block ! 23 = CHR ''{''"
    by simp_all
  from findVariants_loop_scan [OF this, of 0 1 "snd (alloc empty_store [''debug'', ''release''])"]
  have l: "map_option fst
       (findVariants_loop gradle_empty_block 0 1 25 (snd (alloc empty_store [''debug'', ''release''])))
     = Some 50"
    by (simp add: scan_empty_block)
  have r: "returned_list (findVariants (single_file ''app/build.gradle'' gradle_empty_block)
        (snd (alloc empty_store [''debug'', ''release''])) ''app/build.gradle'' ''buildTypes'' (Some 0))
     = Some (Inr [''debug'', ''release'', ''productFlavors''])"
    by (simp add: returned_list_findVariants single_file_def header_empty_block defaults_list_def
        scan_empty_block)
  from header_empty_block e l r show ?thesis by simp
qed

text \<open>
  C8: what the code does when white space other than a space precedes the brace. The
  name \<open>staging\<close> is followed by a line break and two spaces before its opening brace at
  index 25. Skipping white space gives \<open>staging\<close>; the code skips the two spaces only,
  captures the empty string and adds it to the list. With the empty name among the
  base types the pattern of \<open>splitVariant\<close> matches at index 0, so the flavor of
  \<open>demoRelease\<close> is lost.
\<close>

theorem findPreviousTerm_stops_at_line_break:
  "char_at gradle_brace_on_next_line 25 = Some CHR ''{''
   \<and> spec_previous_term gradle_brace_on_next_line 24 = ''staging''
   \<and> findPreviousTerm gradle_brace_on_next_line 24 = Some []
   \<and> returned_list (findVariants (single_file ''app/build.gradle'' gradle_brace_on_next_line)
        (snd (alloc empty_store [''debug'', ''release''])) ''app/build.gradle'' ''buildTypes'' (Some 0))
     = Some (Inr [''debug'', ''release'', []])
   \<and> splitVariant (single_file ''app/build.gradle'' gradle_brace_on_next_line) ''app/build.gradle''
        (Some ''demoRelease'') = Some (Inr (Some ''demoRelease'', Some []))"
proof -
  have a: "char_at gradle_brace_on_next_line 25 = Some CHR ''{''"
    by code_simp
  have b: "spec_previous_term gradle_brace_on_next_line 24 = ''staging''"
    by code_simp
  have c: "findPreviousTerm gradle_brace_on_next_line 24 = Some []"
    by code_simp
  have h: "header_search ''buildTypes'' gradle_brace_on_next_line 0 = Some 12"
    by code_simp
  have s: "scan gradle_brace_on_next_line 1 13 [''debug'', ''release'']
      = Some (32, [''debug'', ''release'', []])"
    by code_simp
  have d: "returned_list (findVariants (single_file ''app/build.gradle'' gradle_brace_on_next_line)
        (snd (alloc empty_store [''debug'', ''release''])) ''app/build.gradle'' ''buildTypes'' (Some 0))
     = Some (Inr [''debug'', ''release'', []])"
    by (simp add: returned_list_findVariants single_file_def h s defaults_list_def)
  have e: "alternation_exec [''debug'', ''release'', []] (Some ''demoRelease'') = Some 0"
    by code_simp
  have f: "splitVariant (single_file ''app/build.gradle'' gradle_brace_on_next_line) ''app/build.gradle''
        (Some ''demoRelease'') = Some (Inr (Some ''demoRelease'', Some []))"
    by (simp add: splitVariant_returned d e)
  from a b c d f show ?thesis by simp
qed

end
